theory Spec2Isabelle
  imports Complex_Main "HOL-Library.AList"
begin

section \<open>Story-view engagement timeline: the data model\<close>

text \<open>
  The development embeds \<^verbatim>\<open>read_story_csv\<close>, \<^verbatim>\<open>build_dataset\<close> and the landmark loop of
  \<^verbatim>\<open>plot_results\<close> from \<^verbatim>\<open>visualize.py\<close>.

  Exceptions are values. \<^verbatim>\<open>KeyError\<close> and \<^verbatim>\<open>ValueError\<close> are caught inside
  \<^verbatim>\<open>read_story_csv\<close>; the ones that leave a function are listed here.
\<close>

datatype error = SystemExit | TypeError | IndexError

text \<open>
  A Python \<^verbatim>\<open>datetime\<close> is either offset-naive or offset-aware. The integer is the number
  of microseconds since 0001-01-01T00:00:00 (wall-clock for a naive value, UTC for an aware
  one). Ordering and subtraction are defined between two naive or two aware values and
  raise \<^verbatim>\<open>TypeError\<close> on a mixed pair; equality of a mixed pair is just false.
\<close>

datatype datetime = Naive int | Aware int

fun dt_sub :: "datetime \<Rightarrow> datetime \<Rightarrow> error + int" where
  "dt_sub (Aware a) (Aware b) = Inr (a - b)"
| "dt_sub (Naive a) (Naive b) = Inr (a - b)"
| "dt_sub _ _ = Inl TypeError"

fun dt_lt :: "datetime \<Rightarrow> datetime \<Rightarrow> error + bool" where
  "dt_lt (Aware a) (Aware b) = Inr (a < b)"
| "dt_lt (Naive a) (Naive b) = Inr (a < b)"
| "dt_lt _ _ = Inl TypeError"

fun dt_le :: "datetime \<Rightarrow> datetime \<Rightarrow> error + bool" where
  "dt_le (Aware a) (Aware b) = Inr (a \<le> b)"
| "dt_le (Naive a) (Naive b) = Inr (a \<le> b)"
| "dt_le _ _ = Inl TypeError"

text \<open>\<^verbatim>\<open>dt.datetime.min.replace(tzinfo=dt.timezone.utc)\<close>\<close>

definition datetime_min_utc :: datetime where
  "datetime_min_utc = Aware 0"

text \<open>
  \<^verbatim>\<open>int(td.total_seconds())\<close> for a difference of \<open>us\<close> microseconds: the quotient by
  \<open>10^6\<close>, truncated toward zero. (The float quotient is taken as exact, which it is for
  every difference shorter than \<open>2^33\<close> seconds.)
\<close>

definition int_total_seconds :: "int \<Rightarrow> int" where
  "int_total_seconds us = (if 0 \<le> us then us div 1000000 else - ((- us) div 1000000))"

definition seconds_between :: "datetime \<Rightarrow> datetime \<Rightarrow> error + int" where
  "seconds_between later earlier =
     (case dt_sub later earlier of Inl e \<Rightarrow> Inl e | Inr us \<Rightarrow> Inr (int_total_seconds us))"

text \<open>A for-loop that appends one result per iteration and stops at the first exception.\<close>

fun map_err :: "('a \<Rightarrow> error + 'b) \<Rightarrow> 'a list \<Rightarrow> error + 'b list" where
  "map_err f [] = Inr []"
| "map_err f (x # xs) =
     (case f x of
        Inl e \<Rightarrow> Inl e
      | Inr y \<Rightarrow> (case map_err f xs of Inl e \<Rightarrow> Inl e | Inr ys \<Rightarrow> Inr (y # ys)))"

text \<open>\<^verbatim>\<open>xs[i]\<close> for a non-negative index.\<close>

definition py_index :: "'a list \<Rightarrow> nat \<Rightarrow> error + 'a" where
  "py_index xs i = (if i < length xs then Inr (xs ! i) else Inl IndexError)"

section \<open>Reading one story file\<close>

text \<open>
  A row as \<^verbatim>\<open>csv.DictReader\<close> yields it, seen through the four expressions that
  \<^verbatim>\<open>read_story_csv\<close> evaluates on it. \<^verbatim>\<open>row[k]\<close> raises \<^verbatim>\<open>KeyError\<close> when the header
  has no column \<open>k\<close>, is \<^verbatim>\<open>None\<close> when the row is shorter than the header, and is a string
  otherwise; \<^verbatim>\<open>int\<close> and \<^verbatim>\<open>fromisoformat\<close> raise \<^verbatim>\<open>TypeError\<close> on \<^verbatim>\<open>None\<close> and
  \<^verbatim>\<open>ValueError\<close> on a string they cannot parse.
\<close>

datatype 'a converted = NoColumn | NoneCell | Unparseable | Parsed 'a

datatype cell = NoKey | Cell "string option"

record csv_row =
  user_id_of :: "int converted"
  full_name_of :: cell
  username_of :: cell
  date_of :: "datetime converted"

type_synonym story_row = "int \<times> string option \<times> string option \<times> datetime"

text \<open>
  The body of the \<^verbatim>\<open>try\<close>: \<open>Inr None\<close> is a row skipped by
  \<^verbatim>\<open>except (KeyError, ValueError)\<close>, \<open>Inl TypeError\<close> an exception the handler does not
  catch.
\<close>

definition read_row :: "csv_row \<Rightarrow> error + story_row option" where
  "read_row row =
     (case user_id_of row of
        NoColumn \<Rightarrow> Inr None
      | NoneCell \<Rightarrow> Inl TypeError
      | Unparseable \<Rightarrow> Inr None
      | Parsed user_id \<Rightarrow>
          (case full_name_of row of
             NoKey \<Rightarrow> Inr None
           | Cell full_name \<Rightarrow>
               (case username_of row of
                  NoKey \<Rightarrow> Inr None
                | Cell username \<Rightarrow>
                    (case date_of row of
                       NoColumn \<Rightarrow> Inr None
                     | NoneCell \<Rightarrow> Inl TypeError
                     | Unparseable \<Rightarrow> Inr None
                     | Parsed date \<Rightarrow> Inr (Some (user_id, full_name, username, date))))))"

fun read_story_csv :: "csv_row list \<Rightarrow> error + story_row list" where
  "read_story_csv [] = Inr []"
| "read_story_csv (row # reader) =
     (case read_row row of
        Inl e \<Rightarrow> Inl e
      | Inr None \<Rightarrow> read_story_csv reader
      | Inr (Some r) \<Rightarrow>
          (case read_story_csv reader of Inl e \<Rightarrow> Inl e | Inr rows \<Rightarrow> Inr (r # rows)))"

section \<open>Loading the stories\<close>

text \<open>
  A \<^verbatim>\<open>dict[int, datetime]\<close> keeps insertion order; assigning to a key that is present
  replaces the value in place. \<open>AList.update\<close> does the same on an association list.
\<close>

type_synonym views = "(int \<times> datetime) list"

definition user_to_time_of :: "story_row list \<Rightarrow> views" where
  "user_to_time_of rows = foldl (\<lambda>m (uid, fn, un, view_dt). AList.update uid view_dt m) [] rows"

text \<open>
  \<^verbatim>\<open>min(values)\<close> keeps the first value and replaces it by each later one that compares
  \<^verbatim>\<open><\<close> to it.
\<close>

fun min_from :: "datetime \<Rightarrow> datetime list \<Rightarrow> error + datetime" where
  "min_from best [] = Inr best"
| "min_from best (item # items) =
     (case dt_lt item best of
        Inl e \<Rightarrow> Inl e
      | Inr b \<Rightarrow> min_from (if b then item else best) items)"

text \<open>One iteration of the loop over \<^verbatim>\<open>csv_files\<close>: the pair appended to
  \<^verbatim>\<open>story_views\<close> and \<^verbatim>\<open>creation_times\<close>.\<close>

definition load_story :: "csv_row list \<Rightarrow> error + (views \<times> datetime)" where
  "load_story csv_file =
     (case read_story_csv csv_file of
        Inl e \<Rightarrow> Inl e
      | Inr rows \<Rightarrow>
          (case user_to_time_of rows of
             [] \<Rightarrow> Inr ([], datetime_min_utc)
           | kv # kvs \<Rightarrow>
               (case min_from (snd kv) (map snd kvs) of
                  Inl e \<Rightarrow> Inl e
                | Inr creation \<Rightarrow> Inr (kv # kvs, creation))))"

definition load_stories :: "csv_row list list \<Rightarrow> error + (views list \<times> datetime list)" where
  "load_stories csv_files =
     (case map_err load_story csv_files of
        Inl e \<Rightarrow> Inl e
      | Inr loaded \<Rightarrow> Inr (map fst loaded, map snd loaded))"

section \<open>Gap distribution and thresholds\<close>

text \<open>The inner loop: one viewer of the current story.\<close>

definition viewer_gap :: "views \<Rightarrow> int \<times> datetime \<Rightarrow> error + int list" where
  "viewer_gap nxt_story item =
     (case map_of nxt_story (fst item) of
        None \<Rightarrow> Inr []
      | Some nxt_time \<Rightarrow>
          (case seconds_between nxt_time (snd item) of
             Inl e \<Rightarrow> Inl e
           | Inr diff \<Rightarrow> Inr (if 0 < diff then [diff] else [])))"

definition pair_gaps :: "views \<Rightarrow> views \<Rightarrow> error + int list" where
  "pair_gaps cur_story nxt_story =
     (case map_err (viewer_gap nxt_story) cur_story of
        Inl e \<Rightarrow> Inl e
      | Inr gss \<Rightarrow> Inr (concat gss))"

text \<open>The outer loop, \<^verbatim>\<open>for idx in range(len(story_views) - 1)\<close>.\<close>

definition gap_seconds_of :: "views list \<Rightarrow> error + int list" where
  "gap_seconds_of story_views =
     (case map_err (\<lambda>idx. pair_gaps (story_views ! idx) (story_views ! (idx + 1)))
             [0 ..< length story_views - 1] of
        Inl e \<Rightarrow> Inl e
      | Inr gss \<Rightarrow> Inr (concat gss))"

definition thresholds :: "int list \<Rightarrow> error + (int \<times> int)" where
  "thresholds gap_seconds =
     (if gap_seconds \<noteq> [] then
        (let sorted_gaps = sort gap_seconds;
             n = length sorted_gaps;
             p20_idx = (n * 20) div 100;
             p80_idx = (n * 80) div 100
         in (case py_index sorted_gaps p20_idx of
               Inl e \<Rightarrow> Inl e
             | Inr threshold_skip \<Rightarrow>
                 (case py_index sorted_gaps p80_idx of
                    Inl e \<Rightarrow> Inl e
                  | Inr threshold_full \<Rightarrow> Inr (threshold_skip, threshold_full))))
      else Inr (30, 60))"

section \<open>Classifying the target viewer's timeline\<close>

text \<open>The \<^verbatim>\<open>if\<close>/\<^verbatim>\<open>elif\<close> chain that sets \<^verbatim>\<open>y_val\<close>, in the order of the source.\<close>

definition engagement :: "int option \<Rightarrow> int \<Rightarrow> int \<Rightarrow> real" where
  "engagement gap threshold_skip threshold_full =
     (case gap of
        None \<Rightarrow> 1
      | Some g \<Rightarrow>
          if g \<le> threshold_skip then 0.5
          else if g \<ge> threshold_full then 1
          else 0.75)"

text \<open>The gap to the next view: \<^verbatim>\<open>None\<close> for the last story and when the target has no
  view of the next one.\<close>

definition next_gap :: "datetime option list \<Rightarrow> nat \<Rightarrow> datetime \<Rightarrow> error + int option" where
  "next_gap user_views idx view_time =
     (if idx + 1 < length user_views then
        (case user_views ! (idx + 1) of
           None \<Rightarrow> Inr None
         | Some next_view \<Rightarrow>
             (case seconds_between next_view view_time of
                Inl e \<Rightarrow> Inl e
              | Inr gap \<Rightarrow> Inr (Some gap)))
      else Inr None)"

text \<open>One iteration of the loop over \<^verbatim>\<open>enumerate(zip(creation_times, user_views))\<close>: the
  values appended to \<^verbatim>\<open>y_values\<close> and \<^verbatim>\<open>latencies\<close>.\<close>

definition observe ::
  "int \<Rightarrow> int \<Rightarrow> datetime option list \<Rightarrow> nat \<times> datetime \<times> datetime option
     \<Rightarrow> error + (real \<times> int option)" where
  "observe threshold_skip threshold_full user_views item =
     (case item of (idx, creation, view) \<Rightarrow>
        (case view of
           None \<Rightarrow> Inr (0, None)
         | Some view_time \<Rightarrow>
             (case seconds_between view_time creation of
                Inl e \<Rightarrow> Inl e
              | Inr lat_sec \<Rightarrow>
                  (case next_gap user_views idx view_time of
                     Inl e \<Rightarrow> Inl e
                   | Inr gap \<Rightarrow>
                       Inr (engagement gap threshold_skip threshold_full, Some lat_sec)))))"

section \<open>Name and handle of the target viewer\<close>

text \<open>The inner loop with its \<^verbatim>\<open>break\<close>: the first row of a file whose id is the target's.\<close>

fun first_row_of :: "int \<Rightarrow> story_row list \<Rightarrow> (string option \<times> string option) option" where
  "first_row_of target_user_id [] = None"
| "first_row_of target_user_id (r # rows) =
     (case r of (uid, full_name, uname, view_dt) \<Rightarrow>
        if uid = target_user_id then Some (full_name, uname)
        else first_row_of target_user_id rows)"

text \<open>Truth value of a \<^verbatim>\<open>str | None\<close>.\<close>

definition truthy :: "string option \<Rightarrow> bool" where
  "truthy s = (case s of None \<Rightarrow> False | Some t \<Rightarrow> t \<noteq> [])"

text \<open>The outer loop over \<^verbatim>\<open>csv_files\<close>; it ends early once \<^verbatim>\<open>user_full_name\<close> is truthy.\<close>

fun retrieve_user_info ::
  "int \<Rightarrow> csv_row list list \<Rightarrow> string option \<times> string option
     \<Rightarrow> error + (string option \<times> string option)" where
  "retrieve_user_info target_user_id [] info = Inr info"
| "retrieve_user_info target_user_id (csv_file # csv_files) info =
     (case read_story_csv csv_file of
        Inl e \<Rightarrow> Inl e
      | Inr rows \<Rightarrow>
          (let info' = (case first_row_of target_user_id rows of
                          None \<Rightarrow> info
                        | Some found \<Rightarrow> found)
           in if truthy (fst info') then Inr info'
              else retrieve_user_info target_user_id csv_files info'))"

definition user_info ::
  "int \<Rightarrow> csv_row list list \<Rightarrow> error + (string option \<times> string option)" where
  "user_info target_user_id csv_files =
     (let info = (Some [], Some [])
      in if \<not> truthy (fst info) then retrieve_user_info target_user_id csv_files info
         else Inr info)"

section \<open>The dataset\<close>

record dataset =
  x_labels :: "string list"
  y_values :: "real list"
  latencies :: "int option list"
  user_full_name :: "string option"
  user_username :: "string option"
  creation_times :: "datetime list"

text \<open>
  \<^verbatim>\<open>build_dataset\<close>. Its argument \<open>csv_files\<close> is the content of the files of the results
  directory in the order \<^verbatim>\<open>sorted(..., key=numeric_key)\<close> leaves them in; \<open>strftime\<close> stands
  for \<^verbatim>\<open>c.strftime("%Y-%m-%d %H:%M")\<close>.
\<close>

definition build_dataset ::
  "(datetime \<Rightarrow> string) \<Rightarrow> csv_row list list \<Rightarrow> int \<Rightarrow> error + dataset" where
  "build_dataset strftime csv_files target_user_id =
     (if csv_files = [] then Inl SystemExit
      else
        (case load_stories csv_files of
           Inl e \<Rightarrow> Inl e
         | Inr (story_views, cts) \<Rightarrow>
             (case gap_seconds_of story_views of
                Inl e \<Rightarrow> Inl e
              | Inr gap_seconds \<Rightarrow>
                  (case thresholds gap_seconds of
                     Inl e \<Rightarrow> Inl e
                   | Inr (threshold_skip, threshold_full) \<Rightarrow>
                       (let user_views = map (\<lambda>sv. map_of sv target_user_id) story_views
                        in (case map_err (observe threshold_skip threshold_full user_views)
                                   (List.enumerate 0 (zip cts user_views)) of
                              Inl e \<Rightarrow> Inl e
                            | Inr obs \<Rightarrow>
                                (case user_info target_user_id csv_files of
                                   Inl e \<Rightarrow> Inl e
                                 | Inr (full_name, uname) \<Rightarrow>
                                     Inr \<lparr>x_labels = map strftime cts,
                                          y_values = map fst obs,
                                          latencies = map snd obs,
                                          user_full_name = full_name,
                                          user_username = uname,
                                          creation_times = cts\<rparr>)))))))"

section \<open>Positioning a landmark\<close>

text \<open>\<^verbatim>\<open>a >= b\<close> on datetimes.\<close>

definition dt_ge :: "datetime \<Rightarrow> datetime \<Rightarrow> error + bool" where
  "dt_ge a b = dt_le b a"

text \<open>
  The loop over \<^verbatim>\<open>enumerate(zip(creation_times[:-1], creation_times[1:]))\<close> with its
  \<^verbatim>\<open>break\<close>; \<open>x_pos\<close> is the value set before the loop. The two
  \<^verbatim>\<open>total_seconds()\<close> are quotients by \<open>10^6\<close>, and the float arithmetic is taken as exact.
\<close>

fun scan_brackets ::
  "datetime \<Rightarrow> (nat \<times> datetime \<times> datetime) list \<Rightarrow> real \<Rightarrow> error + real" where
  "scan_brackets when [] x_pos = Inr x_pos"
| "scan_brackets when (item # items) x_pos =
     (case item of (idx, start, stop) \<Rightarrow>
        (case dt_le start when of
           Inl e \<Rightarrow> Inl e
         | Inr False \<Rightarrow> scan_brackets when items x_pos
         | Inr True \<Rightarrow>
             (case dt_le when stop of
                Inl e \<Rightarrow> Inl e
              | Inr False \<Rightarrow> scan_brackets when items x_pos
              | Inr True \<Rightarrow>
                  (if stop = start then Inr (real idx + 0.5)
                   else
                     (case dt_sub when start of
                        Inl e \<Rightarrow> Inl e
                      | Inr num \<Rightarrow>
                          (case dt_sub stop start of
                             Inl e \<Rightarrow> Inl e
                           | Inr den \<Rightarrow>
                               Inr (real idx
                                    + (real_of_int num / 1000000)
                                      / (real_of_int den / 1000000))))))))"

text \<open>The body of the loop over the landmarks: the \<^verbatim>\<open>x_pos\<close> of one landmark.\<close>

definition landmark_x_pos :: "datetime \<Rightarrow> datetime list \<Rightarrow> error + real" where
  "landmark_x_pos when cts =
     (case py_index cts 0 of
        Inl e \<Rightarrow> Inl e
      | Inr first \<Rightarrow>
          (case dt_le when first of
             Inl e \<Rightarrow> Inl e
           | Inr True \<Rightarrow> Inr (- 0.5)
           | Inr False \<Rightarrow>
               (case dt_ge when (last cts) of
                  Inl e \<Rightarrow> Inl e
                | Inr True \<Rightarrow> Inr (real (length cts) - 0.5)
                | Inr False \<Rightarrow>
                    scan_brackets when
                      (List.enumerate 0 (zip (butlast cts) (tl cts)))
                      (real (length cts) - 0.5))))"

section \<open>Example inputs\<close>

text \<open>A complete row whose timestamp carries a UTC offset, at a whole number of seconds.\<close>

definition complete_row :: "int \<Rightarrow> string \<Rightarrow> string \<Rightarrow> int \<Rightarrow> csv_row" where
  "complete_row uid name handle seconds =
     \<lparr>user_id_of = Parsed uid, full_name_of = Cell (Some name),
      username_of = Cell (Some handle), date_of = Parsed (Aware (seconds * 1000000))\<rparr>"

text \<open>
  Three stories first seen at 0 s, 100 s and 500 s. Viewer 1 sees the first at 10 s and
  the second at 105 s, and not the third; nobody else sees two adjacent stories.
\<close>

definition one_gap_scenario :: "csv_row list list" where
  "one_gap_scenario =
     [[complete_row 2 ''V'' ''v'' 0, complete_row 1 ''U'' ''u'' 10],
      [complete_row 3 ''W'' ''w'' 100, complete_row 1 ''U'' ''u'' 105],
      [complete_row 4 ''X'' ''x'' 500]]"

text \<open>Labels are not looked at by any statement below; this one is empty.\<close>

definition no_label :: "datetime \<Rightarrow> string" where
  "no_label c = []"

definition one_gap_dataset :: dataset where
  "one_gap_dataset =
     \<lparr>x_labels = [[], [], []],
      y_values = [1/2, 1, 0],
      latencies = [Some 10, Some 5, None],
      user_full_name = Some ''U'',
      user_username = Some ''u'',
      creation_times = [Aware 0, Aware 100000000, Aware 500000000]\<rparr>"

text \<open>The view maps that \<open>one_gap_scenario\<close> loads to.\<close>

definition one_gap_views :: "views list" where
  "one_gap_views =
     [[(2, Aware 0), (1, Aware 10000000)],
      [(3, Aware 100000000), (1, Aware 105000000)],
      [(4, Aware 500000000)]]"

text \<open>Two stories; viewer 1 sees the second one 15 seconds before the first.\<close>

definition out_of_order_scenario :: "csv_row list list" where
  "out_of_order_scenario = [[complete_row 1 ''U'' ''u'' 20], [complete_row 1 ''U'' ''u'' 5]]"

definition out_of_order_views :: "views list" where
  "out_of_order_views = [[(1, Aware 20000000)], [(1, Aware 5000000)]]"

definition out_of_order_dataset :: dataset where
  "out_of_order_dataset =
     \<lparr>x_labels = [[], []],
      y_values = [1/2, 1],
      latencies = [Some 0, Some 0],
      user_full_name = Some ''U'',
      user_username = Some ''u'',
      creation_times = [Aware 20000000, Aware 5000000]\<rparr>"

text \<open>A row whose id does not parse, and three stories of which the second has only that row.\<close>

definition bad_id_row :: csv_row where
  "bad_id_row =
     \<lparr>user_id_of = Unparseable, full_name_of = Cell (Some ''W''),
      username_of = Cell (Some ''w''), date_of = Parsed (Aware 40000000)\<rparr>"

definition empty_story_scenario :: "csv_row list list" where
  "empty_story_scenario =
     [[complete_row 1 ''U'' ''u'' 10], [bad_id_row], [complete_row 1 ''U'' ''u'' 70]]"

definition empty_story_dataset :: dataset where
  "empty_story_dataset =
     \<lparr>x_labels = [[], [], []],
      y_values = [1, 0, 1],
      latencies = [Some 0, None, Some 0],
      user_full_name = Some ''U'',
      user_username = Some ''u'',
      creation_times = [Aware 10000000, Aware 0, Aware 70000000]\<rparr>"

section \<open>The lookup of name and handle, in words\<close>

text \<open>
  The first occurrence of the viewer over all rows of all stories, in order; two empty
  strings when there is none.
\<close>

definition first_occurrence ::
  "int \<Rightarrow> story_row list list \<Rightarrow> string option \<times> string option" where
  "first_occurrence target_user_id rowss =
     (case first_row_of target_user_id (concat rowss) of
        None \<Rightarrow> (Some [], Some [])
      | Some info \<Rightarrow> info)"

text \<open>The first row of the viewer in each story that has one, in story order.\<close>

definition target_rows ::
  "int \<Rightarrow> story_row list list \<Rightarrow> (string option \<times> string option) list" where
  "target_rows target_user_id rowss = List.map_filter (first_row_of target_user_id) rowss"

text \<open>
  The first of these rows with a non-empty display name; when none has one, the last of
  them; two empty strings when there is no such row.
\<close>

definition resolved_info ::
  "int \<Rightarrow> story_row list list \<Rightarrow> string option \<times> string option" where
  "resolved_info target_user_id rowss =
     (case find (\<lambda>info. truthy (fst info)) (target_rows target_user_id rowss) of
        Some info \<Rightarrow> info
      | None \<Rightarrow>
          if target_rows target_user_id rowss = [] then (Some [], Some [])
          else last (target_rows target_user_id rowss))"

text \<open>Viewer 1 has an empty display name in the first story and a name in the second.\<close>

definition renamed_scenario :: "csv_row list list" where
  "renamed_scenario = [[complete_row 1 [] ''a'' 0], [complete_row 1 ''Bob'' ''b'' 5]]"

definition renamed_rows :: "story_row list list" where
  "renamed_rows = [[(1, Some [], Some ''a'', Aware 0)], [(1, Some ''Bob'', Some ''b'', Aware 5000000)]]"

definition renamed_dataset :: dataset where
  "renamed_dataset =
     \<lparr>x_labels = [[], []],
      y_values = [1/2, 1],
      latencies = [Some 0, Some 0],
      user_full_name = Some ''Bob'',
      user_username = Some ''b'',
      creation_times = [Aware 0, Aware 5000000]\<rparr>"

text \<open>The rows that \<open>one_gap_scenario\<close> reads to, and its dataset for a viewer who saw nothing.\<close>

definition one_gap_rows :: "story_row list list" where
  "one_gap_rows =
     [[(2, Some ''V'', Some ''v'', Aware 0), (1, Some ''U'', Some ''u'', Aware 10000000)],
      [(3, Some ''W'', Some ''w'', Aware 100000000), (1, Some ''U'', Some ''u'', Aware 105000000)],
      [(4, Some ''X'', Some ''x'', Aware 500000000)]]"

definition unseen_dataset :: dataset where
  "unseen_dataset =
     \<lparr>x_labels = [[], [], []],
      y_values = [0, 0, 0],
      latencies = [None, None, None],
      user_full_name = Some [],
      user_username = Some [],
      creation_times = [Aware 0, Aware 100000000, Aware 500000000]\<rparr>"

section \<open>The position of a landmark, in words\<close>

text \<open>
  Timestamps are instants in microseconds. The pair at index \<open>i\<close> brackets \<open>t\<close>; the
  fraction of the way from \<open>start\<close> to \<open>stop\<close>; and the position: \<open>-0.5\<close> at or before the
  first creation time, \<open>N - 0.5\<close> at or after the last, \<open>i + frac\<close> for the first bracketing
  pair, \<open>N - 0.5\<close> when no pair brackets.
\<close>

definition brackets :: "int \<Rightarrow> int list \<Rightarrow> nat \<Rightarrow> bool" where
  "brackets t ts i = (ts ! i \<le> t \<and> t \<le> ts ! (i + 1))"

definition frac_of :: "int \<Rightarrow> int \<Rightarrow> int \<Rightarrow> real" where
  "frac_of t start stop =
     (if stop = start then 0.5 else real_of_int (t - start) / real_of_int (stop - start))"

definition position_of :: "int \<Rightarrow> int list \<Rightarrow> real" where
  "position_of t ts =
     (if t \<le> ts ! 0 then - 0.5
      else if t \<ge> ts ! (length ts - 1) then real (length ts) - 0.5
      else (case find (brackets t ts) [0 ..< length ts - 1] of
              Some i \<Rightarrow> real i + frac_of t (ts ! i) (ts ! (i + 1))
            | None \<Rightarrow> real (length ts) - 0.5))"

text \<open>A story file with one row that is shorter than the header: it has an id and a name,
  and \<^verbatim>\<open>None\<close> for the handle and the date.\<close>

definition truncated_row :: csv_row where
  "truncated_row =
     \<lparr>user_id_of = Parsed 123, full_name_of = Cell (Some ''Alice''),
      username_of = Cell None, date_of = NoneCell\<rparr>"

text \<open>A story file with two complete rows, one timestamp with an offset and one without.\<close>

definition mixed_offsets_story :: "csv_row list" where
  "mixed_offsets_story =
     [complete_row 1 ''U'' ''u'' 10,
      \<lparr>user_id_of = Parsed 2, full_name_of = Cell (Some ''V''),
       username_of = Cell (Some ''v''), date_of = Parsed (Naive 20000000)\<rparr>]"

section \<open>Inputs on which nothing raises\<close>

definition is_aware :: "datetime \<Rightarrow> bool" where
  "is_aware d = (case d of Aware us \<Rightarrow> True | Naive us \<Rightarrow> False)"

text \<open>A row with no \<^verbatim>\<open>None\<close> in its id and date cells, whose date, if it parses, has an
  offset.\<close>

definition regular_row :: "csv_row \<Rightarrow> bool" where
  "regular_row row =
     (user_id_of row \<noteq> NoneCell
      \<and> (case date_of row of
            NoColumn \<Rightarrow> True
          | NoneCell \<Rightarrow> False
          | Unparseable \<Rightarrow> True
          | Parsed d \<Rightarrow> is_aware d))"

section \<open>Thresholds: nearest rank\<close>

lemma p80_in_range: "0 < n \<Longrightarrow> (n * 80) div 100 < (n::nat)"
  by simp

lemma p20_le_p80: "(n * 20) div 100 \<le> (n * 80) div (100::nat)"
  by (rule div_le_mono) simp

lemma floor_fifth: "nat \<lfloor>real n * 0.20\<rfloor> = (n * 20) div 100"
proof -
  have e: "real n * 0.20 = real (n * 20) / real 100" by simp
  show ?thesis unfolding e floor_divide_of_nat_eq by (rule nat_int)
qed

lemma floor_four_fifths: "nat \<lfloor>real n * 0.80\<rfloor> = (n * 80) div 100"
proof -
  have e: "real n * 0.80 = real (n * 80) / real 100" by simp
  show ?thesis unfolding e floor_divide_of_nat_eq by (rule nat_int)
qed

lemma thresholds_nonempty:
  assumes "gap_seconds \<noteq> []"
  shows "thresholds gap_seconds =
           Inr (sort gap_seconds ! ((length gap_seconds * 20) div 100),
                sort gap_seconds ! ((length gap_seconds * 80) div 100))"
proof -
  let ?n = "length gap_seconds"
  have n: "0 < ?n" using assms by simp
  have i80: "(?n * 80) div 100 < ?n" using n by (rule p80_in_range)
  have i20: "(?n * 20) div 100 < ?n" using i80 p20_le_p80 [of ?n] by linarith
  show ?thesis
    using assms i20 i80 by (simp add: thresholds_def py_index_def Let_def)
qed

text \<open>
  C2. Whatever the gap population is, the estimator returns a threshold pair and raises
  nothing. For a non-empty population of size \<open>n\<close> the pair is read from the ascending sort at
  the indices \<open>\<lfloor>n\<cdot>0.20\<rfloor>\<close> and \<open>\<lfloor>n\<cdot>0.80\<rfloor>\<close>, both of which lie inside the list; for the empty
  population the pair is the default \<open>(30, 60)\<close>.
\<close>

theorem thresholds_nearest_rank:
  "(gap_seconds \<noteq> [] \<longrightarrow>
      thresholds gap_seconds =
        Inr (sort gap_seconds ! nat \<lfloor>real (length gap_seconds) * 0.20\<rfloor>,
             sort gap_seconds ! nat \<lfloor>real (length gap_seconds) * 0.80\<rfloor>)
      \<and> nat \<lfloor>real (length gap_seconds) * 0.20\<rfloor> < length (sort gap_seconds)
      \<and> nat \<lfloor>real (length gap_seconds) * 0.80\<rfloor> < length (sort gap_seconds))
   \<and> (gap_seconds = [] \<longrightarrow> thresholds gap_seconds = Inr (30, 60))"
proof (cases "gap_seconds = []")
  case True
  then show ?thesis by (simp add: thresholds_def)
next
  case False
  let ?n = "length gap_seconds"
  have n: "0 < ?n" using False by simp
  have i80: "(?n * 80) div 100 < ?n" using n by (rule p80_in_range)
  have i20: "(?n * 20) div 100 < ?n" using i80 p20_le_p80 [of ?n] by linarith
  show ?thesis
    using False i20 i80 thresholds_nonempty [OF False]
    by (simp only: floor_fifth floor_four_fifths length_sort) simp
qed

theorem thresholds_nearest_rank_witness:
  "[50, 10, 40, 20, 30] \<noteq> ([] :: int list) \<and> thresholds [50, 10, 40, 20, 30] = Inr (20, 50)"
proof -
  have f20: "nat \<lfloor>real (length [50, 10, 40, 20, 30 :: int]) * 0.20\<rfloor> = 1"
    by (simp add: floor_fifth)
  have f80: "nat \<lfloor>real (length [50, 10, 40, 20, 30 :: int]) * 0.80\<rfloor> = 4"
    by (simp add: floor_four_fifths)
  have s: "sort [50, 10, 40, 20, 30 :: int] = [10, 20, 30, 40, 50]"
    by simp
  show ?thesis
    using thresholds_nearest_rank [of "[50, 10, 40, 20, 30]"]
    unfolding f20 f80 s by simp
qed

section \<open>Loops and the shape of a returned dataset\<close>

lemma map_err_length: "map_err f xs = Inr ys \<Longrightarrow> length ys = length xs"
  by (induction xs arbitrary: ys) (auto split: sum.splits)

lemma map_err_nth:
  "map_err f xs = Inr ys \<Longrightarrow> i < length xs \<Longrightarrow> f (xs ! i) = Inr (ys ! i)"
proof (induction xs arbitrary: ys i)
  case Nil
  then show ?case by simp
next
  case (Cons x xs)
  then show ?case by (cases i) (auto split: sum.splits)
qed

lemma map_err_Inl: "map_err f xs = Inl e \<Longrightarrow> \<exists>x\<in>set xs. f x = Inl e"
  by (induction xs) (auto split: sum.splits)

lemma map_err_Inr: "(\<And>x. x \<in> set xs \<Longrightarrow> \<exists>y. f x = Inr y) \<Longrightarrow> \<exists>ys. map_err f xs = Inr ys"
proof (induction xs)
  case Nil
  then show ?case by simp
next
  case (Cons x xs)
  then obtain y where "f x = Inr y" by auto
  moreover from Cons obtain ys where "map_err f xs = Inr ys" by auto
  ultimately show ?case by simp
qed

lemma load_stories_length:
  assumes "load_stories csv_files = Inr (story_views, cts)"
  shows "length story_views = length csv_files" and "length cts = length csv_files"
  using assms by (auto simp: load_stories_def split: sum.splits dest: map_err_length)

lemma load_stories_nth:
  assumes "load_stories csv_files = Inr (story_views, cts)" and "i < length csv_files"
  shows "load_story (csv_files ! i) = Inr (story_views ! i, cts ! i)"
proof -
  from assms(1) obtain loaded where l: "map_err load_story csv_files = Inr loaded"
    and sv: "story_views = map fst loaded" and ct: "cts = map snd loaded"
    by (auto simp: load_stories_def split: sum.splits)
  have "length loaded = length csv_files" using l by (rule map_err_length)
  with map_err_nth [OF l assms(2)] assms(2) show ?thesis by (simp add: sv ct)
qed

lemma build_dataset_Inr:
  assumes "build_dataset strftime csv_files target = Inr res"
  obtains story_views gap_seconds threshold_skip threshold_full obs where
    "csv_files \<noteq> []"
    "load_stories csv_files = Inr (story_views, creation_times res)"
    "gap_seconds_of story_views = Inr gap_seconds"
    "thresholds gap_seconds = Inr (threshold_skip, threshold_full)"
    "map_err (observe threshold_skip threshold_full (map (\<lambda>sv. map_of sv target) story_views))
       (List.enumerate 0 (zip (creation_times res) (map (\<lambda>sv. map_of sv target) story_views)))
     = Inr obs"
    "y_values res = map fst obs"
    "latencies res = map snd obs"
    "x_labels res = map strftime (creation_times res)"
    "user_info target csv_files = Inr (user_full_name res, user_username res)"
  using assms
  by (auto simp: build_dataset_def Let_def split: if_splits sum.splits prod.splits)

lemma build_dataset_observe:
  assumes "build_dataset strftime csv_files target = Inr res"
  obtains story_views gap_seconds threshold_skip threshold_full where
    "load_stories csv_files = Inr (story_views, creation_times res)"
    "gap_seconds_of story_views = Inr gap_seconds"
    "thresholds gap_seconds = Inr (threshold_skip, threshold_full)"
    "length (y_values res) = length csv_files"
    "length (latencies res) = length csv_files"
    "\<forall>i < length csv_files.
       observe threshold_skip threshold_full (map (\<lambda>sv. map_of sv target) story_views)
         (i, creation_times res ! i, map_of (story_views ! i) target)
       = Inr (y_values res ! i, latencies res ! i)"
proof -
  from assms obtain story_views gap_seconds threshold_skip threshold_full obs where
    ld: "load_stories csv_files = Inr (story_views, creation_times res)"
    and gs: "gap_seconds_of story_views = Inr gap_seconds"
    and th: "thresholds gap_seconds = Inr (threshold_skip, threshold_full)"
    and ob: "map_err (observe threshold_skip threshold_full (map (\<lambda>sv. map_of sv target) story_views))
       (List.enumerate 0 (zip (creation_times res) (map (\<lambda>sv. map_of sv target) story_views)))
     = Inr obs"
    and y: "y_values res = map fst obs" and l: "latencies res = map snd obs"
    by (rule build_dataset_Inr)
  let ?uv = "map (\<lambda>sv. map_of sv target) story_views"
  let ?items = "List.enumerate 0 (zip (creation_times res) ?uv)"
  have n: "length story_views = length csv_files" "length (creation_times res) = length csv_files"
    using load_stories_length [OF ld] by simp_all
  have li: "length ?items = length csv_files" using n by simp
  have lo: "length obs = length csv_files" using map_err_length [OF ob] li by simp
  have nth: "observe threshold_skip threshold_full ?uv
         (i, creation_times res ! i, map_of (story_views ! i) target)
       = Inr (y_values res ! i, latencies res ! i)" if "i < length csv_files" for i
  proof -
    have "?items ! i = (i, creation_times res ! i, map_of (story_views ! i) target)"
      using that n by (simp add: nth_enumerate_eq)
    moreover have "observe threshold_skip threshold_full ?uv (?items ! i) = Inr (obs ! i)"
      using that li by (intro map_err_nth [OF ob]) simp
    ultimately show ?thesis using that lo by (simp add: y l)
  qed
  show ?thesis using that [OF ld gs th] nth lo by (simp add: y l)
qed

section \<open>Coverage of the classification, order of the thresholds\<close>

lemma engagement_values: "engagement gap s f \<in> {1/2, 3/4, 1}"
  by (simp add: engagement_def split: option.splits)

lemma observe_cases:
  assumes "observe s f uv (i, c, v) = Inr (y, l)"
  shows "y \<in> {0, 1/2, 3/4, 1} \<and> (l = None \<longleftrightarrow> y = 0)"
proof (cases v)
  case None
  with assms show ?thesis by (simp add: observe_def)
next
  case (Some vt)
  with assms obtain gap lat where "y = engagement gap s f" "l = Some lat"
    by (auto simp: observe_def split: sum.splits)
  moreover have "engagement gap s f \<in> {1/2, 3/4, 1}" by (rule engagement_values)
  ultimately show ?thesis by auto
qed

text \<open>
  C4. Whenever a dataset is returned, every input story has exactly one engagement value and
  one latency, the engagement value is one of \<open>0\<close>, \<open>0.5\<close>, \<open>0.75\<close>, \<open>1\<close>, and the latency is
  \<^verbatim>\<open>None\<close> exactly when the engagement value is \<open>0\<close>.
\<close>

theorem classification_coverage:
  assumes "build_dataset strftime csv_files target = Inr res"
  shows "length (y_values res) = length csv_files
       \<and> length (latencies res) = length csv_files
       \<and> (\<forall>i < length csv_files.
            y_values res ! i \<in> {0, 1/2, 3/4, 1}
          \<and> (latencies res ! i = None \<longleftrightarrow> y_values res ! i = 0))"
proof -
  from assms obtain story_views gap_seconds threshold_skip threshold_full where
    "load_stories csv_files = Inr (story_views, creation_times res)"
    and "gap_seconds_of story_views = Inr gap_seconds"
    and "thresholds gap_seconds = Inr (threshold_skip, threshold_full)"
    and ly: "length (y_values res) = length csv_files"
    and ll: "length (latencies res) = length csv_files"
    and ob: "\<forall>i < length csv_files.
       observe threshold_skip threshold_full (map (\<lambda>sv. map_of sv target) story_views)
         (i, creation_times res ! i, map_of (story_views ! i) target)
       = Inr (y_values res ! i, latencies res ! i)"
    by (rule build_dataset_observe)
  show ?thesis using ly ll ob observe_cases by blast
qed

text \<open>
  C6. For every gap population the estimator returns a pair with
  \<open>skip_threshold \<le> full_threshold\<close>: the index \<open>\<lfloor>n\<cdot>0.20\<rfloor>\<close> is at most \<open>\<lfloor>n\<cdot>0.80\<rfloor>\<close> and the
  list they index is sorted; the defaults are \<open>30 \<le> 60\<close>.
\<close>

theorem thresholds_ordered:
  "(\<exists>skip full. thresholds gs = Inr (skip, full) \<and> skip \<le> full)
   \<and> nat \<lfloor>real (length gs) * 0.20\<rfloor> \<le> nat \<lfloor>real (length gs) * 0.80\<rfloor>"
proof (cases "gs = []")
  case True
  then show ?thesis by (simp add: thresholds_def)
next
  case False
  let ?n = "length gs"
  have idx: "nat \<lfloor>real ?n * 0.20\<rfloor> \<le> nat \<lfloor>real ?n * 0.80\<rfloor>"
    unfolding floor_fifth floor_four_fifths by (rule p20_le_p80)
  have "(?n * 80) div 100 < length (sort gs)" using False p80_in_range [of ?n] by simp
  with p20_le_p80 [of ?n] have "sort gs ! ((?n * 20) div 100) \<le> sort gs ! ((?n * 80) div 100)"
    by (intro sorted_nth_mono) simp_all
  then show ?thesis using thresholds_nonempty [OF False] idx by simp
qed

lemmas eval_defs = complete_row_def build_dataset_def load_stories_def load_story_def read_row_def user_to_time_of_def
    datetime_min_utc_def gap_seconds_of_def pair_gaps_def viewer_gap_def seconds_between_def int_total_seconds_def
    thresholds_def py_index_def observe_def next_gap_def engagement_def user_info_def truthy_def enumerate_eq_zip upt_rec Let_def
    no_label_def

lemma one_gap_scenario_dataset:
  "build_dataset no_label one_gap_scenario 1 = Inr one_gap_dataset"
  by (simp add: one_gap_scenario_def one_gap_dataset_def eval_defs)

theorem classification_coverage_witness:
  "build_dataset no_label one_gap_scenario 1 = Inr one_gap_dataset
   \<and> length (y_values one_gap_dataset) = 3 \<and> y_values one_gap_dataset ! 0 \<in> {0, 1/2, 3/4, 1}
   \<and> (latencies one_gap_dataset ! 2 = None \<longleftrightarrow> y_values one_gap_dataset ! 2 = 0)"
  using classification_coverage [OF one_gap_scenario_dataset] one_gap_scenario_dataset
  by (simp add: one_gap_scenario_def)

section \<open>Creation time and latency\<close>

lemma dt_le_trans: "dt_le a b = Inr True \<Longrightarrow> dt_le b c = Inr True \<Longrightarrow> dt_le a c = Inr True"
  by (cases a; cases b; cases c) auto

lemma dt_le_refl: "dt_le a a = Inr True"
  by (cases a) auto

lemma dt_lt_le: "dt_lt a b = Inr True \<Longrightarrow> dt_le a b = Inr True"
  by (cases a; cases b) auto

lemma dt_not_lt_le: "dt_lt a b = Inr False \<Longrightarrow> dt_le b a = Inr True"
  by (cases a; cases b) auto

lemma min_from_le:
  "min_from best items = Inr m \<Longrightarrow>
     dt_le m best = Inr True \<and> (\<forall>x \<in> set items. dt_le m x = Inr True)"
proof (induction items arbitrary: best)
  case Nil
  then show ?case by (simp add: dt_le_refl)
next
  case (Cons item items)
  from Cons.prems obtain b where b: "dt_lt item best = Inr b"
    and rec: "min_from (if b then item else best) items = Inr m"
    by (auto split: sum.splits)
  from Cons.IH [OF rec] have m: "dt_le m (if b then item else best) = Inr True"
    and rest: "\<forall>x \<in> set items. dt_le m x = Inr True" by simp_all
  show ?case
  proof (cases b)
    case True
    with m have mi: "dt_le m item = Inr True" by simp
    from b True have "dt_le item best = Inr True" by (simp add: dt_lt_le)
    with mi have "dt_le m best = Inr True" by (rule dt_le_trans)
    with mi rest show ?thesis by simp
  next
    case False
    with m have mb: "dt_le m best = Inr True" by simp
    from b False have "dt_le best item = Inr True" by (simp add: dt_not_lt_le)
    with mb have "dt_le m item = Inr True" by (rule dt_le_trans)
    with mb rest show ?thesis by simp
  qed
qed

lemma load_story_creation_le:
  assumes "load_story csv_file = Inr (sv, creation)" and "map_of sv uid = Some view_time"
  shows "dt_le creation view_time = Inr True"
proof -
  from assms(2) have mem: "(uid, view_time) \<in> set sv" by (rule map_of_SomeD)
  then obtain kv kvs where sv: "sv = kv # kvs" by (cases sv) auto
  from assms(1) sv have "min_from (snd kv) (map snd kvs) = Inr creation"
    by (auto simp: load_story_def split: sum.splits list.splits)
  from min_from_le [OF this] mem sv show ?thesis by force
qed

lemma seconds_between_nonneg:
  assumes "dt_le a b = Inr True" and "seconds_between b a = Inr d"
  shows "0 \<le> d"
  using assms
  by (cases a; cases b) (auto simp: seconds_between_def int_total_seconds_def pos_imp_zdiv_nonneg_iff)

text \<open>
  C5. Whenever a dataset is returned and the latency of a story is defined, it is not
  negative: the creation time of the story is the minimum of the view times in its map, and
  the view time of the target is one of them.
\<close>

theorem latency_nonneg:
  assumes "build_dataset strftime csv_files target = Inr res"
    and "i < length csv_files"
    and "latencies res ! i = Some lat"
  shows "0 \<le> lat"
proof -
  from assms(1) obtain story_views gap_seconds threshold_skip threshold_full where
    ld: "load_stories csv_files = Inr (story_views, creation_times res)"
    and "gap_seconds_of story_views = Inr gap_seconds"
    and "thresholds gap_seconds = Inr (threshold_skip, threshold_full)"
    and "length (y_values res) = length csv_files"
    and "length (latencies res) = length csv_files"
    and ob: "\<forall>i < length csv_files.
       observe threshold_skip threshold_full (map (\<lambda>sv. map_of sv target) story_views)
         (i, creation_times res ! i, map_of (story_views ! i) target)
       = Inr (y_values res ! i, latencies res ! i)"
    by (rule build_dataset_observe)
  from ob assms(2,3) have o: "observe threshold_skip threshold_full (map (\<lambda>sv. map_of sv target) story_views)
         (i, creation_times res ! i, map_of (story_views ! i) target)
       = Inr (y_values res ! i, Some lat)" by simp
  then obtain view_time where vt: "map_of (story_views ! i) target = Some view_time"
    and lat: "seconds_between view_time (creation_times res ! i) = Inr lat"
    by (auto simp: observe_def split: option.splits sum.splits)
  have "load_story (csv_files ! i) = Inr (story_views ! i, creation_times res ! i)"
    using ld assms(2) by (rule load_stories_nth)
  then have "dt_le (creation_times res ! i) view_time = Inr True"
    using vt by (rule load_story_creation_le)
  then show ?thesis using lat by (rule seconds_between_nonneg)
qed

theorem latency_nonneg_witness:
  "build_dataset no_label one_gap_scenario 1 = Inr one_gap_dataset
   \<and> (0::nat) < length one_gap_scenario
   \<and> latencies one_gap_dataset ! 0 = Some 10 \<and> (0::int) \<le> 10"
proof -
  have i: "(0::nat) < length one_gap_scenario" by (simp add: one_gap_scenario_def)
  have l: "latencies one_gap_dataset ! 0 = Some 10" by (simp add: one_gap_dataset_def)
  show ?thesis
    using latency_nonneg [OF one_gap_scenario_dataset i l] one_gap_scenario_dataset i l by simp
qed

section \<open>Gaps, thresholds and the target's own gap\<close>

lemma map_err_set:
  "map_err f xs = Inr ys \<Longrightarrow> y \<in> set ys \<Longrightarrow> \<exists>x \<in> set xs. f x = Inr y"
  by (induction xs arbitrary: ys) (auto split: sum.splits)

lemma viewer_gap_positive: "viewer_gap nxt item = Inr gs \<Longrightarrow> g \<in> set gs \<Longrightarrow> 0 < g"
  by (auto simp: viewer_gap_def split: option.splits sum.splits if_splits)

lemma pair_gaps_positive:
  assumes "pair_gaps cur nxt = Inr gs" and "g \<in> set gs"
  shows "0 < g"
proof -
  from assms(1) obtain gss where m: "map_err (viewer_gap nxt) cur = Inr gss" and gs: "gs = concat gss"
    by (auto simp: pair_gaps_def split: sum.splits)
  from assms(2) gs obtain part where p: "part \<in> set gss" and g: "g \<in> set part" by auto
  from map_err_set [OF m p] obtain item where "viewer_gap nxt item = Inr part" by blast
  then show ?thesis using g by (rule viewer_gap_positive)
qed

lemma gap_seconds_positive:
  assumes "gap_seconds_of story_views = Inr gs" and "g \<in> set gs"
  shows "0 < g"
proof -
  from assms(1) obtain gss where
    m: "map_err (\<lambda>idx. pair_gaps (story_views ! idx) (story_views ! (idx + 1)))
          [0 ..< length story_views - 1] = Inr gss"
    and gs: "gs = concat gss"
    by (auto simp: gap_seconds_of_def split: sum.splits)
  from assms(2) gs obtain part where p: "part \<in> set gss" and g: "g \<in> set part" by auto
  from map_err_set [OF m p] obtain idx
    where "pair_gaps (story_views ! idx) (story_views ! (idx + 1)) = Inr part" by blast
  then show ?thesis using g by (rule pair_gaps_positive)
qed

lemma threshold_skip_positive:
  assumes "thresholds gs = Inr (threshold_skip, threshold_full)" and "\<forall>g \<in> set gs. 0 < g"
  shows "0 < threshold_skip"
proof (cases "gs = []")
  case True
  with assms(1) show ?thesis by (simp add: thresholds_def)
next
  case False
  let ?k = "(length gs * 20) div 100"
  have "(length gs * 80) div 100 < length gs" using False p80_in_range [of "length gs"] by simp
  with p20_le_p80 [of "length gs"] have "?k < length (sort gs)" by simp
  then have "sort gs ! ?k \<in> set (sort gs)" by (rule nth_mem)
  moreover have "threshold_skip = sort gs ! ?k"
    using thresholds_nonempty [OF False] assms(1) by simp
  ultimately show ?thesis using assms(2) by simp
qed

lemma observe_viewed:
  assumes "observe s f uv (i, c, Some view_time) = Inr (y, l)"
  shows "\<exists>lat gap. seconds_between view_time c = Inr lat \<and> next_gap uv i view_time = Inr gap
           \<and> y = engagement gap s f \<and> l = Some lat"
  using assms by (auto simp: observe_def split: sum.splits)

lemma engagement_at:
  assumes res: "build_dataset strftime csv_files target = Inr res"
    and ld: "load_stories csv_files = Inr (story_views, cts)"
    and gs: "gap_seconds_of story_views = Inr gap_seconds"
    and th: "thresholds gap_seconds = Inr (threshold_skip, threshold_full)"
    and i: "i + 1 < length csv_files"
    and cur: "map_of (story_views ! i) target = Some view_time"
    and nxt: "map_of (story_views ! (i + 1)) target = Some next_view"
    and gap: "seconds_between next_view view_time = Inr gap"
  shows "y_values res ! i = engagement (Some gap) threshold_skip threshold_full
       \<and> latencies res ! i \<noteq> None"
proof -
  from res obtain story_views' gap_seconds' threshold_skip' threshold_full' where
    ld': "load_stories csv_files = Inr (story_views', creation_times res)"
    and gs': "gap_seconds_of story_views' = Inr gap_seconds'"
    and th': "thresholds gap_seconds' = Inr (threshold_skip', threshold_full')"
    and "length (y_values res) = length csv_files"
    and "length (latencies res) = length csv_files"
    and ob: "\<forall>i < length csv_files.
       observe threshold_skip' threshold_full' (map (\<lambda>sv. map_of sv target) story_views')
         (i, creation_times res ! i, map_of (story_views' ! i) target)
       = Inr (y_values res ! i, latencies res ! i)"
    by (rule build_dataset_observe)
  from ld ld' have sv: "story_views' = story_views" by simp
  with gs gs' have "gap_seconds' = gap_seconds" by simp
  with th th' have t: "threshold_skip' = threshold_skip" "threshold_full' = threshold_full" by simp_all
  have n: "length story_views = length csv_files" using ld by (rule load_stories_length)
  let ?uv = "map (\<lambda>sv. map_of sv target) story_views"
  have ng: "next_gap ?uv i view_time = Inr (Some gap)"
    using i n nxt gap by (simp add: next_gap_def)
  from ob i have "observe threshold_skip threshold_full ?uv
         (i, creation_times res ! i, map_of (story_views ! i) target)
       = Inr (y_values res ! i, latencies res ! i)" by (simp add: sv t)
  then have "observe threshold_skip threshold_full ?uv (i, creation_times res ! i, Some view_time)
       = Inr (y_values res ! i, latencies res ! i)" using cur by simp
  from observe_viewed [OF this] ng show ?thesis by auto
qed

text \<open>
  C10. Whenever a dataset is returned, every gap of the population is at least one second, so
  the skip threshold is strictly positive (it is a population gap, or the default 30). The
  gap of the target to the next view is not filtered: where it is defined and not positive,
  the story is kept, its latency is defined and its engagement value is \<open>0.5\<close>.
\<close>

theorem nonpositive_gap_is_swiped_past:
  assumes "build_dataset strftime csv_files target = Inr res"
    and "load_stories csv_files = Inr (story_views, cts)"
    and "i + 1 < length csv_files"
    and "map_of (story_views ! i) target = Some view_time"
    and "map_of (story_views ! (i + 1)) target = Some next_view"
    and "seconds_between next_view view_time = Inr gap"
    and "gap \<le> 0"
  shows "y_values res ! i = 1/2
       \<and> latencies res ! i \<noteq> None
       \<and> (\<exists>gap_seconds threshold_skip threshold_full.
             gap_seconds_of story_views = Inr gap_seconds
           \<and> (\<forall>g \<in> set gap_seconds. 1 \<le> g)
           \<and> thresholds gap_seconds = Inr (threshold_skip, threshold_full)
           \<and> 0 < threshold_skip)"
proof -
  from assms(1) obtain story_views' gap_seconds threshold_skip threshold_full where
    ld': "load_stories csv_files = Inr (story_views', creation_times res)"
    and gs': "gap_seconds_of story_views' = Inr gap_seconds"
    and th: "thresholds gap_seconds = Inr (threshold_skip, threshold_full)"
    and "length (y_values res) = length csv_files"
    and "length (latencies res) = length csv_files"
    and "\<forall>i < length csv_files.
       observe threshold_skip threshold_full (map (\<lambda>sv. map_of sv target) story_views')
         (i, creation_times res ! i, map_of (story_views' ! i) target)
       = Inr (y_values res ! i, latencies res ! i)"
    by (rule build_dataset_observe)
  from assms(2) ld' have "story_views' = story_views" by simp
  with gs' have gs: "gap_seconds_of story_views = Inr gap_seconds" by simp
  have pos: "\<forall>g \<in> set gap_seconds. 0 < g" using gap_seconds_positive [OF gs] by blast
  have skip: "0 < threshold_skip" using th pos by (rule threshold_skip_positive)
  have "y_values res ! i = engagement (Some gap) threshold_skip threshold_full
       \<and> latencies res ! i \<noteq> None"
    using assms(1,2) gs th assms(3-6) by (rule engagement_at)
  moreover have "engagement (Some gap) threshold_skip threshold_full = 1/2"
    using skip assms(7) by (simp add: engagement_def)
  ultimately show ?thesis using gs pos th skip by force
qed

lemma out_of_order_run:
  "build_dataset no_label out_of_order_scenario 1 = Inr out_of_order_dataset"
  "load_stories out_of_order_scenario = Inr (out_of_order_views, creation_times out_of_order_dataset)"
  by (simp_all add: out_of_order_scenario_def out_of_order_dataset_def out_of_order_views_def eval_defs)

theorem nonpositive_gap_is_swiped_past_witness:
  "build_dataset no_label out_of_order_scenario 1 = Inr out_of_order_dataset
   \<and> seconds_between (Aware 5000000) (Aware 20000000) = Inr (- 15)
   \<and> (- 15 :: int) \<le> 0
   \<and> y_values out_of_order_dataset ! 0 = 1/2"
proof -
  have i: "0 + 1 < length out_of_order_scenario" by (simp add: out_of_order_scenario_def)
  have cur: "map_of (out_of_order_views ! 0) 1 = Some (Aware 20000000)"
    by (simp add: out_of_order_views_def)
  have nxt: "map_of (out_of_order_views ! (0 + 1)) 1 = Some (Aware 5000000)"
    by (simp add: out_of_order_views_def)
  have gap: "seconds_between (Aware 5000000) (Aware 20000000) = Inr (- 15)"
    by (simp add: seconds_between_def int_total_seconds_def)
  have np: "(- 15 :: int) \<le> 0" by simp
  show ?thesis
    using nonpositive_gap_is_swiped_past [OF out_of_order_run i cur nxt gap np]
      out_of_order_run(1) gap
    by simp
qed

lemma one_gap_run:
  "load_stories one_gap_scenario = Inr (one_gap_views, creation_times one_gap_dataset)"
  "gap_seconds_of one_gap_views = Inr [95]"
  "thresholds [95] = Inr (95, 95)"
  by (simp_all add: one_gap_scenario_def one_gap_dataset_def one_gap_views_def eval_defs)

text \<open>
  C1, as amended. Where the gap of the target to the next view is defined and both
  thresholds equal it, the test \<^verbatim>\<open>gap <= threshold_skip\<close> is met first and the engagement value
  is \<open>0.5\<close>. In the one-gap scenario the first story gets \<open>0.5\<close> with latency 10, not \<open>1\<close>.
\<close>

theorem tie_is_swiped_past:
  assumes "build_dataset strftime csv_files target = Inr res"
    and "load_stories csv_files = Inr (story_views, cts)"
    and "gap_seconds_of story_views = Inr gap_seconds"
    and "thresholds gap_seconds = Inr (gap, gap)"
    and "i + 1 < length csv_files"
    and "map_of (story_views ! i) target = Some view_time"
    and "map_of (story_views ! (i + 1)) target = Some next_view"
    and "seconds_between next_view view_time = Inr gap"
  shows "y_values res ! i = 1/2"
proof -
  have "y_values res ! i = engagement (Some gap) gap gap \<and> latencies res ! i \<noteq> None"
    using assms by (rule engagement_at)
  then show ?thesis by (simp add: engagement_def)
qed

theorem tie_is_swiped_past_witness:
  "build_dataset no_label one_gap_scenario 1 = Inr one_gap_dataset
   \<and> thresholds [95] = Inr (95, 95)
   \<and> seconds_between (Aware 105000000) (Aware 10000000) = Inr 95
   \<and> y_values one_gap_dataset ! 0 = 1/2"
proof -
  have i: "0 + 1 < length one_gap_scenario" by (simp add: one_gap_scenario_def)
  have cur: "map_of (one_gap_views ! 0) 1 = Some (Aware 10000000)"
    by (simp add: one_gap_views_def)
  have nxt: "map_of (one_gap_views ! (0 + 1)) 1 = Some (Aware 105000000)"
    by (simp add: one_gap_views_def)
  have gap: "seconds_between (Aware 105000000) (Aware 10000000) = Inr 95"
    by (simp add: seconds_between_def int_total_seconds_def)
  show ?thesis
    using tie_is_swiped_past [OF one_gap_scenario_dataset one_gap_run i cur nxt gap]
      one_gap_scenario_dataset one_gap_run(3) gap
    by simp
qed

theorem tie_counterexample:
  "build_dataset no_label one_gap_scenario 1 = Inr one_gap_dataset
   \<and> load_stories one_gap_scenario = Inr (one_gap_views, creation_times one_gap_dataset)
   \<and> gap_seconds_of one_gap_views = Inr [95]
   \<and> thresholds [95] = Inr (95, 95)
   \<and> seconds_between (Aware 105000000) (Aware 10000000) = Inr 95
   \<and> y_values one_gap_dataset ! 0 \<noteq> 1
   \<and> latencies one_gap_dataset ! 0 = Some 10"
  using one_gap_scenario_dataset one_gap_run
  by (simp add: one_gap_dataset_def seconds_between_def int_total_seconds_def)

section \<open>Stories without a valid row\<close>

lemma load_story_empty:
  "read_story_csv csv_file = Inr [] \<Longrightarrow> load_story csv_file = Inr ([], datetime_min_utc)"
  by (simp add: load_story_def user_to_time_of_def)

text \<open>
  C8. Whenever a dataset is returned, the labels, the engagement values, the latencies and
  the creation times each have one entry per input file, and so has the list of view maps.
  A file from which no row is kept still has its entry: its view map is empty, its creation
  time is \<^verbatim>\<open>datetime.min\<close> in UTC, its engagement value is \<open>0\<close> and its latency is \<^verbatim>\<open>None\<close>.
\<close>

theorem empty_story_keeps_slot:
  assumes "build_dataset strftime csv_files target = Inr res"
  shows "length (x_labels res) = length csv_files
       \<and> length (y_values res) = length csv_files
       \<and> length (latencies res) = length csv_files
       \<and> length (creation_times res) = length csv_files
       \<and> (\<exists>story_views.
             load_stories csv_files = Inr (story_views, creation_times res)
           \<and> length story_views = length csv_files
           \<and> (\<forall>i < length csv_files.
                 read_story_csv (csv_files ! i) = Inr [] \<longrightarrow>
                   story_views ! i = []
                 \<and> creation_times res ! i = datetime_min_utc
                 \<and> y_values res ! i = 0
                 \<and> latencies res ! i = None))"
proof -
  from assms obtain story_views gap_seconds threshold_skip threshold_full where
    ld: "load_stories csv_files = Inr (story_views, creation_times res)"
    and "gap_seconds_of story_views = Inr gap_seconds"
    and "thresholds gap_seconds = Inr (threshold_skip, threshold_full)"
    and ly: "length (y_values res) = length csv_files"
    and ll: "length (latencies res) = length csv_files"
    and ob: "\<forall>i < length csv_files.
       observe threshold_skip threshold_full (map (\<lambda>sv. map_of sv target) story_views)
         (i, creation_times res ! i, map_of (story_views ! i) target)
       = Inr (y_values res ! i, latencies res ! i)"
    by (rule build_dataset_observe)
  have n: "length story_views = length csv_files" "length (creation_times res) = length csv_files"
    using load_stories_length [OF ld] by simp_all
  have "x_labels res = map strftime (creation_times res)"
    using assms by (rule build_dataset_Inr)
  then have lx: "length (x_labels res) = length csv_files" using n by simp
  have slot: "story_views ! i = [] \<and> creation_times res ! i = datetime_min_utc
                 \<and> y_values res ! i = 0 \<and> latencies res ! i = None"
    if i: "i < length csv_files" and e: "read_story_csv (csv_files ! i) = Inr []" for i
  proof -
    have "load_story (csv_files ! i) = Inr (story_views ! i, creation_times res ! i)"
      using ld i by (rule load_stories_nth)
    with load_story_empty [OF e]
    have sv: "story_views ! i = []" and ct: "creation_times res ! i = datetime_min_utc" by simp_all
    from ob i have "observe threshold_skip threshold_full (map (\<lambda>sv. map_of sv target) story_views)
         (i, creation_times res ! i, map_of (story_views ! i) target)
       = Inr (y_values res ! i, latencies res ! i)" by simp
    then have "y_values res ! i = 0 \<and> latencies res ! i = None"
      by (simp add: sv observe_def)
    with sv ct show ?thesis by simp
  qed
  show ?thesis using lx ly ll n ld slot by blast
qed

lemma empty_story_run:
  "build_dataset no_label empty_story_scenario 1 = Inr empty_story_dataset"
  by (simp add: empty_story_scenario_def empty_story_dataset_def bad_id_row_def eval_defs)

theorem empty_story_keeps_slot_witness:
  "build_dataset no_label empty_story_scenario 1 = Inr empty_story_dataset
   \<and> read_story_csv (empty_story_scenario ! 1) = Inr []
   \<and> length (creation_times empty_story_dataset) = 3
   \<and> creation_times empty_story_dataset ! 1 = datetime_min_utc
   \<and> y_values empty_story_dataset ! 1 = 0"
proof -
  have e: "read_story_csv (empty_story_scenario ! 1) = Inr []"
    by (simp add: empty_story_scenario_def bad_id_row_def read_row_def)
  have n: "length empty_story_scenario = 3" by (simp add: empty_story_scenario_def)
  show ?thesis
    using empty_story_keeps_slot [OF empty_story_run] empty_story_run e n by auto
qed

section \<open>Name and handle of the target viewer: what the lookup returns\<close>

lemma load_story_reads: "load_story csv_file = Inr p \<Longrightarrow> \<exists>rows. read_story_csv csv_file = Inr rows"
  by (auto simp: load_story_def split: sum.splits)

lemma load_stories_reads:
  assumes "load_stories csv_files = Inr p"
  shows "\<exists>rowss. map_err read_story_csv csv_files = Inr rowss"
proof -
  from assms obtain loaded where l: "map_err load_story csv_files = Inr loaded"
    by (auto simp: load_stories_def split: sum.splits)
  show ?thesis
  proof (rule map_err_Inr)
    fix csv_file assume "csv_file \<in> set csv_files"
    then obtain i where i: "i < length csv_files" and c: "csv_files ! i = csv_file"
      by (auto simp: in_set_conv_nth)
    from map_err_nth [OF l i] c show "\<exists>rows. read_story_csv csv_file = Inr rows"
      by (auto dest: load_story_reads)
  qed
qed

lemma retrieve_user_info_resolved:
  assumes "map_err read_story_csv csv_files = Inr rowss" and "\<not> truthy (fst info)"
  shows "retrieve_user_info target csv_files info =
           Inr (case find (\<lambda>info. truthy (fst info)) (target_rows target rowss) of
                  Some found \<Rightarrow> found
                | None \<Rightarrow> if target_rows target rowss = [] then info
                          else last (target_rows target rowss))"
  using assms
proof (induction csv_files arbitrary: rowss info)
  case Nil
  then show ?case by (auto simp: target_rows_def)
next
  case (Cons csv_file csv_files)
  from Cons.prems(1) obtain rows rest where r: "read_story_csv csv_file = Inr rows"
    and m: "map_err read_story_csv csv_files = Inr rest" and rowss: "rowss = rows # rest"
    by (auto split: sum.splits)
  show ?case
  proof (cases "first_row_of target rows")
    case None
    then have t: "target_rows target rowss = target_rows target rest"
      by (simp add: rowss target_rows_def)
    from None r Cons.IH [OF m Cons.prems(2)] Cons.prems(2) show ?thesis unfolding t by simp
  next
    case (Some found)
    then have t: "target_rows target rowss = found # target_rows target rest"
      by (simp add: rowss target_rows_def)
    show ?thesis
    proof (cases "truthy (fst found)")
      case True
      with Some r show ?thesis unfolding t by simp
    next
      case False
      from Cons.IH [OF m False] Some r False show ?thesis unfolding t
        by (auto split: option.splits)
    qed
  qed
qed

lemma first_row_of_append:
  "first_row_of target (xs @ ys) =
     (case first_row_of target xs of None \<Rightarrow> first_row_of target ys | Some info \<Rightarrow> Some info)"
  by (induction xs) auto

lemma first_row_of_concat:
  "first_row_of target (concat rowss) =
     (case target_rows target rowss of [] \<Rightarrow> None | info # _ \<Rightarrow> Some info)"
  by (induction rowss)
     (auto simp: first_row_of_append target_rows_def split: option.splits)

lemma first_row_of_None: "first_row_of target rows = None \<longleftrightarrow> (\<forall>r \<in> set rows. fst r \<noteq> target)"
proof (induction rows)
  case Nil
  then show ?case by simp
next
  case (Cons r rows)
  obtain uid full_name uname view_dt where "r = (uid, full_name, uname, view_dt)"
    by (cases r) auto
  with Cons show ?case by simp
qed

lemma target_rows_Nil:
  "target_rows target rowss = [] \<longleftrightarrow> (\<forall>rows \<in> set rowss. \<forall>r \<in> set rows. fst r \<noteq> target)"
proof (induction rowss)
  case Nil
  then show ?case by (simp add: target_rows_def)
next
  case (Cons rows rowss)
  have "target_rows target (rows # rowss) = [] \<longleftrightarrow>
          first_row_of target rows = None \<and> target_rows target rowss = []"
    by (simp add: target_rows_def split: option.splits)
  with Cons show ?case by (simp add: first_row_of_None)
qed

lemma resolved_first_occurrence:
  assumes "\<forall>info \<in> set (target_rows target rowss). truthy (fst info)"
  shows "resolved_info target rowss = first_occurrence target rowss"
  using assms
  by (cases "target_rows target rowss")
     (simp_all add: resolved_info_def first_occurrence_def first_row_of_concat)

text \<open>
  C9, as amended. Whenever a dataset is returned, every file was read, and the name and
  handle are those of the first row of the viewer in the first story where that row has a
  non-empty display name; when no story has such a row they are those of the first row of
  the viewer in the last story where the viewer appears. When every such row has a non-empty
  display name this is the first occurrence of the viewer. When the viewer appears in no
  story, both are empty strings.
\<close>

theorem user_info_resolution:
  assumes "build_dataset strftime csv_files target = Inr res"
  shows "\<exists>rowss. map_err read_story_csv csv_files = Inr rowss
         \<and> (user_full_name res, user_username res) = resolved_info target rowss
         \<and> ((\<forall>info \<in> set (target_rows target rowss). truthy (fst info)) \<longrightarrow>
              (user_full_name res, user_username res) = first_occurrence target rowss)
         \<and> ((\<forall>rows \<in> set rowss. \<forall>r \<in> set rows. fst r \<noteq> target) \<longrightarrow>
              user_full_name res = Some [] \<and> user_username res = Some [])"
proof -
  from assms obtain story_views where
    ld: "load_stories csv_files = Inr (story_views, creation_times res)"
    and ui: "user_info target csv_files = Inr (user_full_name res, user_username res)"
    by (rule build_dataset_Inr)
  from load_stories_reads [OF ld] obtain rowss
    where m: "map_err read_story_csv csv_files = Inr rowss" ..
  have "\<not> truthy (fst (Some [], Some []))" by (simp add: truthy_def)
  from retrieve_user_info_resolved [OF m this, of target] ui
  have r: "(user_full_name res, user_username res) = resolved_info target rowss"
    by (simp add: user_info_def resolved_info_def truthy_def)
  have f: "(user_full_name res, user_username res) = first_occurrence target rowss"
    if "\<forall>info \<in> set (target_rows target rowss). truthy (fst info)"
    using r resolved_first_occurrence [OF that] by simp
  have n: "user_full_name res = Some [] \<and> user_username res = Some []"
    if "\<forall>rows \<in> set rowss. \<forall>r \<in> set rows. fst r \<noteq> target"
  proof -
    from that have "target_rows target rowss = []" by (simp add: target_rows_Nil)
    with r show ?thesis by (simp add: resolved_info_def)
  qed
  show ?thesis using m r f n by blast
qed

lemma one_gap_reads: "map_err read_story_csv one_gap_scenario = Inr one_gap_rows"
  by (simp add: one_gap_scenario_def one_gap_rows_def complete_row_def read_row_def)

lemma unseen_run: "build_dataset no_label one_gap_scenario 9 = Inr unseen_dataset"
  by (simp add: one_gap_scenario_def unseen_dataset_def eval_defs)

theorem user_info_resolution_witness:
  "build_dataset no_label one_gap_scenario 1 = Inr one_gap_dataset
   \<and> map_err read_story_csv one_gap_scenario = Inr one_gap_rows
   \<and> (user_full_name one_gap_dataset, user_username one_gap_dataset)
       = first_occurrence 1 one_gap_rows
   \<and> build_dataset no_label one_gap_scenario 9 = Inr unseen_dataset
   \<and> user_full_name unseen_dataset = Some [] \<and> user_username unseen_dataset = Some []"
proof -
  have named: "\<forall>info \<in> set (target_rows 1 one_gap_rows). truthy (fst info)"
    by (simp add: target_rows_def one_gap_rows_def truthy_def)
  have absent: "\<forall>rows \<in> set one_gap_rows. \<forall>r \<in> set rows. fst r \<noteq> 9"
    by (simp add: one_gap_rows_def)
  have "(user_full_name one_gap_dataset, user_username one_gap_dataset)
         = first_occurrence 1 one_gap_rows"
    using user_info_resolution [OF one_gap_scenario_dataset] one_gap_reads named by auto
  moreover have "user_full_name unseen_dataset = Some [] \<and> user_username unseen_dataset = Some []"
    using user_info_resolution [OF unseen_run] one_gap_reads absent by auto
  ultimately show ?thesis using one_gap_scenario_dataset one_gap_reads unseen_run by simp
qed

theorem first_occurrence_counterexample:
  "build_dataset no_label renamed_scenario 1 = Inr renamed_dataset
   \<and> map_err read_story_csv renamed_scenario = Inr renamed_rows
   \<and> first_occurrence 1 renamed_rows = (Some [], Some ''a'')
   \<and> (user_full_name renamed_dataset, user_username renamed_dataset) = (Some ''Bob'', Some ''b'')
   \<and> (user_full_name renamed_dataset, user_username renamed_dataset)
       \<noteq> first_occurrence 1 renamed_rows"
  by (simp add: renamed_scenario_def renamed_dataset_def renamed_rows_def first_occurrence_def
        eval_defs)

section \<open>Positioning a landmark: the scan finds the first bracket\<close>

lemma adjacent_pairs:
  "List.enumerate 0 (zip (butlast cts) (tl cts)) =
     map (\<lambda>i. (i, cts ! i, cts ! (i + 1))) [0 ..< length cts - 1]"
  by (rule nth_equalityI) (simp_all add: nth_enumerate_eq nth_butlast nth_tl)

lemma micro_ratio: "x / 1000000 / (y / 1000000) = x / (y::real)"
  by simp

lemma scan_brackets_step:
  "scan_brackets (Aware t) ((i, Aware a, Aware b) # items) x_pos =
     (if a \<le> t \<and> t \<le> b then Inr (real i + frac_of t a b)
      else scan_brackets (Aware t) items x_pos)"
proof (cases "a \<le> t")
  case False
  then show ?thesis by simp
next
  case after_start: True
  show ?thesis
  proof (cases "t \<le> b")
    case False
    with after_start show ?thesis by simp
  next
    case True
    have "real_of_int (t - a) / 1000000 / (real_of_int (b - a) / 1000000)
            = real_of_int (t - a) / real_of_int (b - a)"
      by (rule micro_ratio)
    with after_start True show ?thesis by (simp add: frac_of_def)
  qed
qed

lemma scan_brackets_find:
  assumes "n < length ts"
  shows "scan_brackets (Aware t)
           (map (\<lambda>i. (i, map Aware ts ! i, map Aware ts ! (i + 1))) [k ..< n]) x_pos =
         Inr (case find (brackets t ts) [k ..< n] of
                Some i \<Rightarrow> real i + frac_of t (ts ! i) (ts ! (i + 1))
              | None \<Rightarrow> x_pos)"
proof (induction "n - k" arbitrary: k)
  case 0
  then show ?case by simp
next
  case (Suc d)
  then have k: "k < n" and d: "d = n - Suc k" by simp_all
  have upt: "[k ..< n] = k # [Suc k ..< n]" using k by (simp add: upt_rec)
  have items: "map (\<lambda>i. (i, map Aware ts ! i, map Aware ts ! (i + 1))) [k ..< n] =
      (k, Aware (ts ! k), Aware (ts ! (k + 1)))
        # map (\<lambda>i. (i, map Aware ts ! i, map Aware ts ! (i + 1))) [Suc k ..< n]"
    unfolding upt using k assms by simp
  show ?case
    unfolding items scan_brackets_step Suc.hyps(1) [OF d]
    unfolding upt by (simp add: brackets_def)
qed

text \<open>
  C3. For a landmark and \<open>N \<ge> 1\<close> creation times that all carry an offset (landmarks always
  do), the positioner returns \<open>-0.5\<close> when the landmark is at or before the first creation
  time, \<open>N - 0.5\<close> when it is at or after the last, and otherwise \<open>i + frac\<close> for the first
  adjacent pair that brackets it, with \<open>frac = (t - start) / (stop - start)\<close>, or \<open>0.5\<close> when
  \<open>stop = start\<close>, and \<open>N - 0.5\<close> when no pair brackets it.
\<close>

theorem landmark_position:
  assumes "ts \<noteq> []"
  shows "landmark_x_pos (Aware t) (map Aware ts) = Inr (position_of t ts)"
proof -
  let ?cts = "map Aware ts"
  have first: "py_index ?cts 0 = Inr (Aware (ts ! 0))"
    using assms by (simp add: py_index_def)
  have lst: "last ?cts = Aware (ts ! (length ts - 1))"
    using assms by (simp add: last_map last_conv_nth)
  have scan: "scan_brackets (Aware t) (List.enumerate 0 (zip (butlast ?cts) (tl ?cts))) x_pos =
      Inr (case find (brackets t ts) [0 ..< length ts - 1] of
            Some i \<Rightarrow> real i + frac_of t (ts ! i) (ts ! (i + 1))
          | None \<Rightarrow> x_pos)" for x_pos
    using assms scan_brackets_find [of "length ts - 1" ts t 0 x_pos]
    by (simp add: adjacent_pairs)
  show ?thesis
    by (simp add: landmark_x_pos_def first lst dt_ge_def scan position_of_def
          split: option.splits)
qed

theorem landmark_position_witness:
  "[0, 100000000] \<noteq> ([] :: int list)
   \<and> landmark_x_pos (Aware 50000000) (map Aware [0, 100000000]) = Inr (1/2)"
proof -
  have p: "position_of 50000000 [0, 100000000] = 1/2"
    by (simp add: position_of_def brackets_def frac_of_def)
  show ?thesis using landmark_position [of "[0, 100000000]" 50000000] by (simp add: p)
qed

section \<open>The fallback of the scan is never taken\<close>

lemma bracket_exists:
  assumes "\<not> t \<le> ts ! 0" and "\<not> ts ! (length ts - 1) \<le> t" and "ts \<noteq> []"
  shows "\<exists>i < length ts - 1. brackets t ts i"
proof -
  define P where "P j \<longleftrightarrow> j < length ts \<and> t \<le> ts ! j" for j
  have ex: "P (length ts - 1)" using assms by (simp add: P_def)
  define j where "j = (LEAST j. P j)"
  have Pj: "P j" unfolding j_def using ex by (rule LeastI)
  have "j \<noteq> 0"
  proof
    assume "j = 0"
    with Pj have "t \<le> ts ! 0" by (simp add: P_def)
    with assms(1) show False by simp
  qed
  then obtain i where i: "j = Suc i" by (cases j) auto
  have "\<not> P i" using not_less_Least [of i P] i j_def by simp
  with Pj i have "ts ! i < t" by (auto simp: P_def)
  with Pj i show ?thesis by (auto simp: P_def brackets_def intro!: exI [of _ i])
qed

lemma fallback_unreachable:
  assumes "\<not> t \<le> ts ! 0" and "\<not> ts ! (length ts - 1) \<le> t" and "ts \<noteq> []"
  shows "find (brackets t ts) [0 ..< length ts - 1] \<noteq> None"
  using bracket_exists [OF assms] by (auto simp: find_None_iff)

section \<open>What stops a run\<close>

lemma mixed_offsets_raise:
  "build_dataset no_label [mixed_offsets_story] 1 = Inl TypeError"
  by (simp add: mixed_offsets_story_def eval_defs)

lemma read_story_csv_error: "read_story_csv reader = Inl e \<Longrightarrow> e = TypeError"
  by (induction reader) (auto simp: read_row_def split: sum.splits option.splits converted.splits cell.splits)

lemma dt_lt_error: "dt_lt a b = Inl e \<Longrightarrow> e = TypeError"
  by (cases a; cases b) auto

lemma dt_sub_error: "dt_sub a b = Inl e \<Longrightarrow> e = TypeError"
  by (cases a; cases b) auto

lemma min_from_error: "min_from best items = Inl e \<Longrightarrow> e = TypeError"
  by (induction items arbitrary: best) (auto split: sum.splits dest: dt_lt_error)

lemma load_story_error: "load_story csv_file = Inl e \<Longrightarrow> e = TypeError"
  by (auto simp: load_story_def split: sum.splits list.splits
        dest: read_story_csv_error min_from_error)

lemma load_stories_error: "load_stories csv_files = Inl e \<Longrightarrow> e = TypeError"
  by (auto simp: load_stories_def split: sum.splits dest!: map_err_Inl dest: load_story_error)

lemma seconds_between_error: "seconds_between a b = Inl e \<Longrightarrow> e = TypeError"
  by (auto simp: seconds_between_def split: sum.splits dest: dt_sub_error)

lemma viewer_gap_error: "viewer_gap nxt item = Inl e \<Longrightarrow> e = TypeError"
  by (auto simp: viewer_gap_def split: sum.splits option.splits dest: seconds_between_error)

lemma pair_gaps_error: "pair_gaps cur nxt = Inl e \<Longrightarrow> e = TypeError"
  by (auto simp: pair_gaps_def split: sum.splits dest!: map_err_Inl dest: viewer_gap_error)

lemma gap_seconds_of_error: "gap_seconds_of story_views = Inl e \<Longrightarrow> e = TypeError"
  by (auto simp: gap_seconds_of_def split: sum.splits dest!: map_err_Inl dest: pair_gaps_error)

lemma thresholds_no_error: "thresholds gs \<noteq> Inl e"
  using thresholds_nonempty [of gs] by (cases "gs = []") (simp_all add: thresholds_def)

lemma observe_error: "observe s f uv item = Inl e \<Longrightarrow> e = TypeError"
  by (auto simp: observe_def next_gap_def split: sum.splits option.splits prod.splits if_splits
        dest: seconds_between_error)

lemma retrieve_user_info_error: "retrieve_user_info target csv_files info = Inl e \<Longrightarrow> e = TypeError"
  by (induction csv_files arbitrary: info)
     (auto simp: Let_def split: sum.splits if_splits dest: read_story_csv_error)

lemma user_info_error: "user_info target csv_files = Inl e \<Longrightarrow> e = TypeError"
  by (auto simp: user_info_def Let_def split: if_splits dest: retrieve_user_info_error)

lemma hard_stop_iff:
  "build_dataset strftime csv_files target = Inl SystemExit \<longleftrightarrow> csv_files = []"
proof
  assume "csv_files = []"
  then show "build_dataset strftime csv_files target = Inl SystemExit"
    by (simp add: build_dataset_def)
next
  assume a: "build_dataset strftime csv_files target = Inl SystemExit"
  show "csv_files = []"
  proof (rule ccontr)
    assume "csv_files \<noteq> []"
    with a show False
      by (auto simp: build_dataset_def Let_def thresholds_no_error
            split: sum.splits prod.splits
            dest: load_stories_error gap_seconds_of_error user_info_error
            dest!: map_err_Inl dest: observe_error)
  qed
qed

lemma read_row_regular:
  "regular_row row \<Longrightarrow>
     read_row row = Inr None \<or> (\<exists>r. read_row row = Inr (Some r) \<and> is_aware (snd (snd (snd r))))"
  by (cases "user_id_of row"; cases "full_name_of row"; cases "username_of row";
      cases "date_of row")
     (simp_all add: regular_row_def read_row_def)

lemma read_story_csv_regular:
  assumes "\<forall>row \<in> set reader. regular_row row"
  shows "\<exists>rows. read_story_csv reader = Inr rows \<and> (\<forall>r \<in> set rows. is_aware (snd (snd (snd r))))"
  using assms
proof (induction reader)
  case Nil
  then show ?case by simp
next
  case (Cons row reader)
  then obtain rows where rows: "read_story_csv reader = Inr rows"
    and aw: "\<forall>r \<in> set rows. is_aware (snd (snd (snd r)))" by auto
  from Cons.prems have "regular_row row" by simp
  then consider "read_row row = Inr None"
    | r where "read_row row = Inr (Some r)" "is_aware (snd (snd (snd r)))"
    using read_row_regular by blast
  then show ?case
  proof cases
    case 1
    with rows aw show ?thesis by simp
  next
    case 2
    with rows aw show ?thesis by simp
  qed
qed

lemma update_member: "kv \<in> set (AList.update k v al) \<Longrightarrow> kv = (k, v) \<or> kv \<in> set al"
  by (induction al) (auto split: if_splits)

lemma user_to_time_aware_from:
  assumes "\<forall>r \<in> set rows. is_aware (snd (snd (snd r)))" and "\<forall>kv \<in> set m. is_aware (snd kv)"
  shows "\<forall>kv \<in> set (foldl (\<lambda>m (uid, fn, un, view_dt). AList.update uid view_dt m) m rows).
           is_aware (snd kv)"
  using assms
proof (induction rows arbitrary: m)
  case Nil
  then show ?case by simp
next
  case (Cons r rows)
  obtain uid fn un view_dt where r: "r = (uid, fn, un, view_dt)" by (cases r) auto
  with Cons.prems have "\<forall>kv \<in> set (AList.update uid view_dt m). is_aware (snd kv)"
    by (auto dest!: update_member)
  with Cons.IH [of "AList.update uid view_dt m"] Cons.prems(1) r show ?case by simp
qed

lemma user_to_time_aware:
  "\<forall>r \<in> set rows. is_aware (snd (snd (snd r))) \<Longrightarrow>
     \<forall>kv \<in> set (user_to_time_of rows). is_aware (snd kv)"
  unfolding user_to_time_of_def by (rule user_to_time_aware_from) simp_all

lemma min_from_aware:
  assumes "is_aware best" and "\<forall>x \<in> set items. is_aware x"
  shows "\<exists>m. min_from best items = Inr m \<and> is_aware m"
  using assms
proof (induction items arbitrary: best)
  case Nil
  then show ?case by simp
next
  case (Cons item items)
  from Cons.prems obtain a b where ab: "best = Aware a" "item = Aware b"
    by (cases best; cases item) (auto simp: is_aware_def)
  have "is_aware (if b < a then item else best)" using Cons.prems by simp
  from Cons.IH [OF this] Cons.prems(2) ab show ?case by (cases "b < a") simp_all
qed

lemma load_story_regular:
  assumes "\<forall>row \<in> set csv_file. regular_row row"
  shows "\<exists>sv c. load_story csv_file = Inr (sv, c) \<and> is_aware c \<and> (\<forall>kv \<in> set sv. is_aware (snd kv))"
proof -
  from read_story_csv_regular [OF assms] obtain rows where
    rows: "read_story_csv csv_file = Inr rows" and "\<forall>r \<in> set rows. is_aware (snd (snd (snd r)))"
    by blast
  then have aw: "\<forall>kv \<in> set (user_to_time_of rows). is_aware (snd kv)"
    by (simp add: user_to_time_aware)
  show ?thesis
  proof (cases "user_to_time_of rows")
    case Nil
    with rows show ?thesis by (simp add: load_story_def datetime_min_utc_def is_aware_def)
  next
    case (Cons kv kvs)
    with aw have "is_aware (snd kv)" "\<forall>x \<in> set (map snd kvs). is_aware x" by simp_all
    from min_from_aware [OF this] obtain m
      where "min_from (snd kv) (map snd kvs) = Inr m" "is_aware m" by blast
    with rows Cons aw show ?thesis by (simp add: load_story_def)
  qed
qed

lemma seconds_between_aware:
  "is_aware a \<Longrightarrow> is_aware b \<Longrightarrow> \<exists>d. seconds_between a b = Inr d"
  by (cases a; cases b) (simp_all add: is_aware_def seconds_between_def)

lemma load_stories_regular:
  assumes "\<forall>csv_file \<in> set csv_files. \<forall>row \<in> set csv_file. regular_row row"
  shows "\<exists>svs cts. load_stories csv_files = Inr (svs, cts)
           \<and> (\<forall>c \<in> set cts. is_aware c)
           \<and> (\<forall>sv \<in> set svs. \<forall>kv \<in> set sv. is_aware (snd kv))"
proof -
  have "\<exists>p. load_story csv_file = Inr p" if "csv_file \<in> set csv_files" for csv_file
    using load_story_regular [of csv_file] assms that by auto
  then obtain loaded where l: "map_err load_story csv_files = Inr loaded"
    using map_err_Inr [of csv_files load_story] by blast
  have ok: "is_aware (snd p) \<and> (\<forall>kv \<in> set (fst p). is_aware (snd kv))" if "p \<in> set loaded" for p
  proof -
    from map_err_set [OF l that] obtain csv_file
      where f: "csv_file \<in> set csv_files" and p: "load_story csv_file = Inr p" by blast
    from load_story_regular [of csv_file] assms f p show ?thesis by auto
  qed
  from l have "load_stories csv_files = Inr (map fst loaded, map snd loaded)"
    by (simp add: load_stories_def)
  with ok show ?thesis by auto
qed

lemma viewer_gap_aware:
  assumes "is_aware (snd item)" and "\<forall>kv \<in> set nxt. is_aware (snd kv)"
  shows "\<exists>gs. viewer_gap nxt item = Inr gs"
proof (cases "map_of nxt (fst item)")
  case None
  then show ?thesis by (simp add: viewer_gap_def)
next
  case (Some nxt_time)
  then have "(fst item, nxt_time) \<in> set nxt" by (rule map_of_SomeD)
  with assms(2) have "is_aware nxt_time" by auto
  from seconds_between_aware [OF this assms(1)] Some show ?thesis
    by (auto simp: viewer_gap_def)
qed

lemma pair_gaps_aware:
  assumes "\<forall>kv \<in> set cur. is_aware (snd kv)" and "\<forall>kv \<in> set nxt. is_aware (snd kv)"
  shows "\<exists>gs. pair_gaps cur nxt = Inr gs"
proof -
  have "\<exists>gs. viewer_gap nxt item = Inr gs" if "item \<in> set cur" for item
    using viewer_gap_aware [of item nxt] assms that by auto
  then obtain gss where "map_err (viewer_gap nxt) cur = Inr gss"
    using map_err_Inr [of cur "viewer_gap nxt"] by blast
  then show ?thesis by (simp add: pair_gaps_def)
qed

lemma gap_seconds_of_aware:
  assumes "\<forall>sv \<in> set svs. \<forall>kv \<in> set sv. is_aware (snd kv)"
  shows "\<exists>gs. gap_seconds_of svs = Inr gs"
proof -
  have "\<exists>gs. pair_gaps (svs ! idx) (svs ! (idx + 1)) = Inr gs"
    if "idx \<in> set [0 ..< length svs - 1]" for idx
  proof -
    from that have "svs ! idx \<in> set svs" "svs ! (idx + 1) \<in> set svs" by simp_all
    with assms show ?thesis by (intro pair_gaps_aware) blast+
  qed
  then obtain gss where
    "map_err (\<lambda>idx. pair_gaps (svs ! idx) (svs ! (idx + 1))) [0 ..< length svs - 1] = Inr gss"
    using map_err_Inr [of "[0 ..< length svs - 1]" "\<lambda>idx. pair_gaps (svs ! idx) (svs ! (idx + 1))"]
    by blast
  then show ?thesis by (simp add: gap_seconds_of_def)
qed

lemma observe_aware:
  assumes "is_aware c" and "\<forall>d. v = Some d \<longrightarrow> is_aware d"
    and "\<forall>u \<in> set uv. \<forall>d. u = Some d \<longrightarrow> is_aware d"
  shows "\<exists>ob. observe s f uv (i, c, v) = Inr ob"
proof (cases v)
  case None
  then show ?thesis by (simp add: observe_def)
next
  case (Some view_time)
  with assms(2) have vt: "is_aware view_time" by simp
  from seconds_between_aware [OF vt assms(1)] obtain lat
    where lat: "seconds_between view_time c = Inr lat" ..
  have "\<exists>gap. next_gap uv i view_time = Inr gap"
  proof (cases "i + 1 < length uv")
    case False
    then show ?thesis by (simp add: next_gap_def)
  next
    case True
    show ?thesis
    proof (cases "uv ! (i + 1)")
      case None
      with True show ?thesis by (simp add: next_gap_def)
    next
      case (Some next_view)
      with True assms(3) have "is_aware next_view" by (metis nth_mem)
      from seconds_between_aware [OF this vt] Some True show ?thesis
        by (auto simp: next_gap_def)
    qed
  qed
  with Some lat show ?thesis by (auto simp: observe_def)
qed

lemma retrieve_user_info_returns:
  assumes "map_err read_story_csv csv_files = Inr rowss"
  shows "\<exists>found. retrieve_user_info target csv_files info = Inr found"
  using assms
proof (induction csv_files arbitrary: rowss info)
  case Nil
  then show ?case by simp
next
  case (Cons csv_file csv_files)
  from Cons.prems obtain rows rest where r: "read_story_csv csv_file = Inr rows"
    and m: "map_err read_story_csv csv_files = Inr rest"
    by (auto split: sum.splits)
  from Cons.IH [OF m] r show ?case by (simp add: Let_def)
qed

lemma thresholds_returns: "\<exists>skip full. thresholds gs = Inr (skip, full)"
  using thresholds_nonempty [of gs] by (cases "gs = []") (simp_all add: thresholds_def)

lemma build_dataset_regular:
  assumes "csv_files \<noteq> []"
    and "\<forall>csv_file \<in> set csv_files. \<forall>row \<in> set csv_file. regular_row row"
  shows "\<exists>res. build_dataset strftime csv_files target = Inr res"
proof -
  from load_stories_regular [OF assms(2)] obtain svs cts where
    ld: "load_stories csv_files = Inr (svs, cts)"
    and cts: "\<forall>c \<in> set cts. is_aware c"
    and svs: "\<forall>sv \<in> set svs. \<forall>kv \<in> set sv. is_aware (snd kv)" by blast
  from gap_seconds_of_aware [OF svs] obtain gs where gs: "gap_seconds_of svs = Inr gs" ..
  obtain skip full where th: "thresholds gs = Inr (skip, full)"
    using thresholds_returns [of gs] by blast
  let ?uv = "map (\<lambda>sv. map_of sv target) svs"
  have uv: "\<forall>u \<in> set ?uv. \<forall>d. u = Some d \<longrightarrow> is_aware d"
  proof (intro ballI allI impI)
    fix u d assume "u \<in> set ?uv" and d: "u = Some d"
    then obtain sv where sv: "sv \<in> set svs" and "map_of sv target = Some d" by auto
    then have "(target, d) \<in> set sv" by (simp add: map_of_SomeD)
    with svs sv show "is_aware d" by force
  qed
  have "\<exists>ob. observe skip full ?uv item = Inr ob"
    if "item \<in> set (List.enumerate 0 (zip cts ?uv))" for item
  proof -
    obtain i c v where item: "item = (i, c, v)" by (cases item) auto
    with that have i: "i < length cts" "i < length svs" and c: "c = cts ! i"
      and v: "v = map_of (svs ! i) target"
      by (auto simp: in_set_enumerate_eq)
    have "c \<in> set cts" using i c by simp
    moreover have "v \<in> set ?uv" using i v by (auto simp: in_set_conv_nth intro!: exI [of _ i])
    ultimately show ?thesis using cts uv unfolding item by (intro observe_aware) blast+
  qed
  then obtain obs where
    obs: "map_err (observe skip full ?uv) (List.enumerate 0 (zip cts ?uv)) = Inr obs"
    using map_err_Inr [of "List.enumerate 0 (zip cts ?uv)" "observe skip full ?uv"] by blast
  from load_stories_reads [OF ld] obtain rowss
    where "map_err read_story_csv csv_files = Inr rowss" ..
  from retrieve_user_info_returns [OF this] obtain found
    where "retrieve_user_info target csv_files (Some [], Some []) = Inr found" ..
  then have "user_info target csv_files = Inr found" by (simp add: user_info_def truthy_def)
  with assms(1) ld gs th obs show ?thesis
    by (cases found) (simp add: build_dataset_def Let_def)
qed

text \<open>
  C7. The hard stop happens exactly for an empty list of files (\<open>hard_stop_iff\<close>), and a
  non-empty input whose rows are all regular gives a dataset (\<open>build_dataset_regular\<close>). But
  not every non-empty input does: a row shorter than the header is not skipped. Its missing
  cells are \<^verbatim>\<open>None\<close>, \<^verbatim>\<open>fromisoformat(None)\<close> raises \<^verbatim>\<open>TypeError\<close>, and the handler
  only catches \<^verbatim>\<open>KeyError\<close> and \<^verbatim>\<open>ValueError\<close>, so the run stops with that exception.
\<close>

theorem truncated_row_raises:
  "[[truncated_row]] \<noteq> [] \<and> build_dataset no_label [[truncated_row]] 123 = Inl TypeError"
  by (simp add: truncated_row_def build_dataset_def load_stories_def load_story_def read_row_def)

end
